theory Spec2Isabelle
  imports Main "HOL-Library.Word" "HOL-Library.Multiset"
begin

section \<open>The dictionary-compressed column of CoGaDB\<close>

text \<open>
  The class \<^verbatim>\<open>DictionaryCompressedColumn<T>\<close> of
  \<^verbatim>\<open>compression/dictionary_compressed_column.hpp\<close> keeps a
  \<^verbatim>\<open>std::map<T, size_t> _values\<close> (each distinct value with the number of rows
  holding it) and a \<^verbatim>\<open>std::vector<ValueReference> _position\<close> whose slots are
  iterators into that map. An iterator of a \<^verbatim>\<open>std::map\<close> is the address of a tree
  node, and copying a column copies such addresses, so the nodes live in an explicit store
  here and an iterator is an address of that store.
\<close>

subsection \<open>The store of map nodes\<close>

type_synonym addr = nat

text \<open>\<^verbatim>\<open>size_t\<close> on an LP64 platform: \<^verbatim>\<open>++\<close> and \<^verbatim>\<open>--\<close> wrap modulo \<open>2^64\<close>.\<close>

type_synonym size_t = "64 word"

text \<open>\<^verbatim>\<open>TID\<close> is an unsigned row index; its declaration is not part of the file.\<close>

type_synonym TID = nat

text \<open>
  A node of a \<^verbatim>\<open>std::map<T, size_t>\<close> is a pair of its key and its count. The store is
  the list of all nodes ever allocated, indexed by address: \<open>None\<close> marks a node that has
  been erased. A new node takes the next address, so an address is never given out twice
  and an iterator to an erased node stays recognisably dangling.
\<close>

type_synonym 'a heap = "('a \<times> size_t) option list"

definition deref :: "'a heap \<Rightarrow> addr \<Rightarrow> ('a \<times> size_t) option" where
  "deref h a = (if a < length h then h ! a else None)"

definition key_of :: "'a heap \<Rightarrow> addr \<Rightarrow> 'a option" where
  "key_of h a = map_option fst (deref h a)"

definition count_of :: "'a heap \<Rightarrow> addr \<Rightarrow> size_t option" where
  "count_of h a = map_option snd (deref h a)"

text \<open>
  What a call can do other than return: \<open>OutOfRange\<close> is the \<^verbatim>\<open>std::out_of_range\<close>
  exception thrown by \<^verbatim>\<open>std::vector::at\<close>; \<open>Undefined\<close> stands for behaviour the C++
  standard leaves undefined (dereferencing or erasing through an iterator that is not a
  live node of the map, indexing a vector out of its bounds with \<^verbatim>\<open>operator[]\<close>).
\<close>

datatype failure = OutOfRange | Undefined

text \<open>
  A \<^verbatim>\<open>boost::any\<close> as the column sees it: empty, holding a \<^verbatim>\<open>T\<close>, or holding a value whose
  \<^verbatim>\<open>type()\<close> is not \<^verbatim>\<open>typeid(T)\<close> (that value is never read).
\<close>

datatype 'a boost_any = AnyEmpty | AnyT 'a | AnyOther

subsection \<open>The operations of \<^verbatim>\<open>std::map\<close> that the column uses\<close>

text \<open>
  The map of a column is the list of its node addresses in key order.
  \<^verbatim>\<open>find\<close> returns the node with the given key, \<open>None\<close> for \<^verbatim>\<open>end()\<close>.
\<close>

definition map_find :: "'a heap \<Rightarrow> addr list \<Rightarrow> 'a \<Rightarrow> addr option" where
  "map_find h vals v = List.find (\<lambda>a. key_of h a = Some v) vals"

text \<open>
  \<^verbatim>\<open>emplace(v, n).first\<close>: the node that has key \<open>v\<close> already, left as it is, or else a new
  node \<open>(v, n)\<close> linked in at its place in the key order.
\<close>

definition map_emplace ::
  "'a::linorder \<Rightarrow> size_t \<Rightarrow> 'a heap \<Rightarrow> addr list \<Rightarrow> addr \<times> 'a heap \<times> addr list" where
  "map_emplace v n h vals =
     (case map_find h vals v of
        Some it \<Rightarrow> (it, h, vals)
      | None \<Rightarrow>
          (let it = length h; h' = h @ [Some (v, n)]
           in (it, h', insort_key (\<lambda>b. the (key_of h' b)) it vals)))"

text \<open>\<^verbatim>\<open>erase(it)\<close> is defined only for an iterator to a node of this very map.\<close>

definition map_erase :: "addr \<Rightarrow> 'a heap \<Rightarrow> addr list \<Rightarrow> failure + ('a heap \<times> addr list)" where
  "map_erase it h vals =
     (if it \<in> set vals then Inr (h[it := None], remove1 it vals) else Inl Undefined)"

subsection \<open>The column\<close>

record column =
  col_values :: "addr list"
  col_position :: "addr list"

definition empty_column :: column where
  "empty_column = \<lparr>col_values = [], col_position = []\<rparr>"

definition size_column :: "column \<Rightarrow> nat" where
  "size_column c = length (col_position c)"

text \<open>
  Both \<^verbatim>\<open>insert(const T&)\<close> and the second half of \<^verbatim>\<open>update\<close> look the value up and
  either emplace it with count 1 or increment the count of the node found; the result is
  the iterator that is then stored in \<^verbatim>\<open>_position\<close>.
\<close>

definition find_or_emplace ::
  "'a::linorder \<Rightarrow> 'a heap \<Rightarrow> addr list \<Rightarrow> addr \<times> 'a heap \<times> addr list" where
  "find_or_emplace v h vals =
     (case map_find h vals v of
        None \<Rightarrow> map_emplace v 1 h vals
      | Some it \<Rightarrow>
          (case deref h it of
             Some (k, n) \<Rightarrow> (it, h[it := Some (k, n + 1)], vals)
           | None \<Rightarrow> (it, h, vals)))"

text \<open>\<^verbatim>\<open>bool insert(const T& new_value)\<close>\<close>

definition insert_value ::
  "'a::linorder \<Rightarrow> 'a heap \<Rightarrow> column \<Rightarrow> bool \<times> 'a heap \<times> column" where
  "insert_value new_value h c =
     (case find_or_emplace new_value h (col_values c) of
        (it, h', vals') \<Rightarrow>
          (True, h', \<lparr>col_values = vals', col_position = col_position c @ [it]\<rparr>))"

text \<open>\<^verbatim>\<open>bool insert(const boost::any& new_Value)\<close>\<close>

definition insert_any ::
  "'a::linorder boost_any \<Rightarrow> 'a heap \<Rightarrow> column \<Rightarrow> bool \<times> 'a heap \<times> column" where
  "insert_any new_Value h c =
     (case new_Value of
        AnyEmpty \<Rightarrow> (False, h, c)
      | AnyOther \<Rightarrow> (False, h, c)
      | AnyT v \<Rightarrow> insert_value v h c)"

text \<open>\<^verbatim>\<open>bool insert(InputIterator first, InputIterator last)\<close>\<close>

fun insert_range ::
  "'a::linorder list \<Rightarrow> 'a heap \<Rightarrow> column \<Rightarrow> bool \<times> 'a heap \<times> column" where
  "insert_range [] h c = (True, h, c)"
| "insert_range (v # vs) h c =
     (case insert_value v h c of
        (ok, h', c') \<Rightarrow> if \<not> ok then (False, h', c') else insert_range vs h' c')"

text \<open>
  Both \<^verbatim>\<open>update\<close> and \<^verbatim>\<open>remove\<close> decrement the count of the node behind the slot and
  erase the node from \<^verbatim>\<open>_values\<close> when the count has become 0.
\<close>

definition decrement_or_erase ::
  "addr \<Rightarrow> 'a heap \<Rightarrow> addr list \<Rightarrow> failure + ('a heap \<times> addr list)" where
  "decrement_or_erase it h vals =
     (case deref h it of
        None \<Rightarrow> Inl Undefined
      | Some (k, n) \<Rightarrow>
          (let h' = h[it := Some (k, n - 1)]
           in if n - 1 = 0 then map_erase it h' vals else Inr (h', vals)))"

text \<open>
  \<^verbatim>\<open>bool update(TID tid, const boost::any& new_value)\<close>. The row is rewritten in place and
  then the function ends with \<^verbatim>\<open>return insert(new_value);\<close>.
\<close>

definition update ::
  "TID \<Rightarrow> 'a::linorder boost_any \<Rightarrow> 'a heap \<Rightarrow> column \<Rightarrow> failure + (bool \<times> 'a heap \<times> column)" where
  "update tid new_value h c =
     (case new_value of
        AnyEmpty \<Rightarrow> Inr (False, h, c)
      | AnyOther \<Rightarrow> Inr (False, h, c)
      | AnyT v \<Rightarrow>
          if \<not> tid < length (col_position c) then Inl OutOfRange
          else
            (case decrement_or_erase (col_position c ! tid) h (col_values c) of
               Inl e \<Rightarrow> Inl e
             | Inr (h1, vals1) \<Rightarrow>
                 (case find_or_emplace v h1 vals1 of
                    (elem, h2, vals2) \<Rightarrow>
                      Inr (insert_any new_value h2
                             \<lparr>col_values = vals2,
                              col_position = (col_position c)[tid := elem]\<rparr>))))"

text \<open>
  The loop of \<^verbatim>\<open>remove\<close>:
  \<^verbatim>\<open>for (size_t i = tid; i < _position.size() - 1; ++i) _position[i] = _position[i+1];\<close>
  It is entered only after \<^verbatim>\<open>_position.at(tid)\<close> has returned, so the vector is not empty.
\<close>

function shift_left :: "nat \<Rightarrow> addr list \<Rightarrow> addr list" where
  "shift_left i pos =
     (if i < length pos - 1 then shift_left (Suc i) (pos[i := pos ! Suc i]) else pos)"
  by pat_completeness auto
termination
  by (relation "measure (\<lambda>(i, pos). length pos - i)") auto

text \<open>\<^verbatim>\<open>bool remove(TID tid)\<close>\<close>

definition remove :: "TID \<Rightarrow> 'a heap \<Rightarrow> column \<Rightarrow> failure + (bool \<times> 'a heap \<times> column)" where
  "remove tid h c =
     (if \<not> tid < length (col_position c) then Inl OutOfRange
      else
        (case decrement_or_erase (col_position c ! tid) h (col_values c) of
           Inl e \<Rightarrow> Inl e
         | Inr (h', vals') \<Rightarrow>
             Inr (True, h',
                  \<lparr>col_values = vals',
                   col_position = butlast (shift_left tid (col_position c))\<rparr>)))"

text \<open>\<^verbatim>\<open>bool clearContent()\<close>: clearing the map destroys every node of it.\<close>

definition clearContent :: "'a heap \<Rightarrow> column \<Rightarrow> bool \<times> 'a heap \<times> column" where
  "clearContent h c =
     (True, fold (\<lambda>it h'. h'[it := None]) (col_values c) h, empty_column)"

text \<open>\<^verbatim>\<open>const boost::any get(TID tid)\<close>\<close>

definition get :: "TID \<Rightarrow> 'a heap \<Rightarrow> column \<Rightarrow> failure + 'a boost_any" where
  "get tid h c =
     (if \<not> tid < length (col_position c) then Inl OutOfRange
      else
        (case deref h (col_position c ! tid) of
           None \<Rightarrow> Inl Undefined
         | Some (k, n) \<Rightarrow> Inr (AnyT k)))"

text \<open>
  \<^verbatim>\<open>const ColumnPtr copy() const\<close> calls the implicit copy constructor: the map is copied
  node by node into new nodes, the vector of iterators is copied element by element.
\<close>

definition copy :: "'a heap \<Rightarrow> column \<Rightarrow> 'a heap \<times> column" where
  "copy h c =
     (let nodes = map (deref h) (col_values c)
      in (h @ nodes,
          \<lparr>col_values = [length h ..< length h + length nodes],
           col_position = col_position c\<rparr>))"

subsection \<open>The serializer\<close>

text \<open>
  \<^verbatim>\<open>store\<close> and \<^verbatim>\<open>load\<close> use the formatted insertion and extraction of the stream
  library on \<^verbatim>\<open>size_t\<close> and \<^verbatim>\<open>T\<close>, which are not part of the file. A file is
  modelled by the sequence of items that extraction reads from it: pairs of a count and a
  value for \<^verbatim>\<open><path>_values\<close>, ordinals for \<^verbatim>\<open><path>_position\<close>. A file that does
  not exist yields no item.
\<close>

record 'a files =
  values_file :: "string \<rightharpoonup> (size_t \<times> 'a) list"
  position_file :: "string \<rightharpoonup> size_t list"








text \<open>
  The stream operators of \<^verbatim>\<open>float\<close> on whole numbers, from the stream library and not
  from the file: with the default precision \<^verbatim>\<open>operator<<\<close> writes the decimal of six
  significant digits nearest to the value (a tie goes to the even digit), so a whole
  number below \<open>10^6\<close> is written in full and a larger one loses its last digits. For a
  whole number of magnitude up to \<open>2^24\<close> both the number and that decimal are values of
  a \<^verbatim>\<open>float\<close>, and \<^verbatim>\<open>operator>>\<close> reads the decimal back.
\<close>

function decimal_digits :: "nat \<Rightarrow> nat" where
  "decimal_digits n = (if n < 10 then 1 else Suc (decimal_digits (n div 10)))"
  by pat_completeness auto
termination
  by (relation "measure (\<lambda>n. n)") auto



text \<open>
  The first loop of \<^verbatim>\<open>load\<close>:
  \<^verbatim>\<open>while (values_instream >> occuring >> value) refs.push_back(_values.emplace(value, occuring).first);\<close>
\<close>

fun load_values ::
  "(size_t \<times> 'a::linorder) list \<Rightarrow> 'a heap \<Rightarrow> addr list \<Rightarrow> addr list
     \<Rightarrow> 'a heap \<times> addr list \<times> addr list" where
  "load_values [] h vals refs = (h, vals, refs)"
| "load_values ((occuring, v) # rest) h vals refs =
     (case map_emplace v occuring h vals of
        (it, h', vals') \<Rightarrow> load_values rest h' vals' (refs @ [it]))"

text \<open>
  The second loop of \<^verbatim>\<open>load\<close>:
  \<^verbatim>\<open>while (pos_instream >> pointer) _position.push_back(refs[pointer]);\<close>
  where \<^verbatim>\<open>refs[pointer]\<close> is not bounds-checked.
\<close>

fun load_position :: "size_t list \<Rightarrow> addr list \<Rightarrow> addr list \<Rightarrow> failure + addr list" where
  "load_position [] refs pos = Inr pos"
| "load_position (pointer # rest) refs pos =
     (if unat pointer < length refs
      then load_position rest refs (pos @ [refs ! unat pointer])
      else Inl Undefined)"

definition read_values :: "'a files \<Rightarrow> string \<Rightarrow> (size_t \<times> 'a) list" where
  "read_values fs p = (case values_file fs p of None \<Rightarrow> [] | Some items \<Rightarrow> items)"

definition read_position :: "'a files \<Rightarrow> string \<Rightarrow> size_t list" where
  "read_position fs p = (case position_file fs p of None \<Rightarrow> [] | Some items \<Rightarrow> items)"

text \<open>\<^verbatim>\<open>bool load(const std::string& path)\<close>\<close>

definition load ::
  "string \<Rightarrow> 'a::linorder files \<Rightarrow> 'a heap \<Rightarrow> column \<Rightarrow> failure + (bool \<times> 'a heap \<times> column)" where
  "load path fs h c =
     (case load_values (read_values fs (path @ ''_values'')) h (col_values c) [] of
        (h', vals', refs) \<Rightarrow>
          (case load_position (read_position fs (path @ ''_position'')) refs (col_position c) of
             Inl e \<Rightarrow> Inl e
           | Inr pos' \<Rightarrow> Inr (True, h', \<lparr>col_values = vals', col_position = pos'\<rparr>)))"

subsection \<open>The invariants of the data model\<close>

text \<open>
  The invariants over a dictionary with nodes \<open>vals\<close> and a multiset \<open>M\<close> of handles in
  use: every node of the dictionary is live, has a count that is not 0 and equals the
  number of handles to it; no two nodes have the same key; every handle is a node of the
  dictionary.
\<close>

definition wf_refs :: "'a heap \<Rightarrow> addr list \<Rightarrow> addr multiset \<Rightarrow> bool" where
  "wf_refs h vals M \<longleftrightarrow>
     (\<forall>a\<in>set vals. case deref h a of
                      None \<Rightarrow> False
                    | Some (k, n) \<Rightarrow> n \<noteq> 0 \<and> unat n = count M a) \<and>
     distinct (map (key_of h) vals) \<and>
     set_mset M \<subseteq> set vals"

text \<open>A column satisfies the invariants when its position slots are those handles.\<close>

definition wf_column :: "'a heap \<Rightarrow> column \<Rightarrow> bool" where
  "wf_column h c \<longleftrightarrow> wf_refs h (col_values c) (mset (col_position c))"

subsection \<open>Sequences of calls\<close>

datatype 'a call =
    Insert 'a
  | InsertAny "'a boost_any"
  | Update TID "'a boost_any"
  | Remove TID
  | ClearContent

definition call :: "'a::linorder call \<Rightarrow> 'a heap \<Rightarrow> column \<Rightarrow> failure + (bool \<times> 'a heap \<times> column)" where
  "call x h c =
     (case x of
        Insert v \<Rightarrow> Inr (insert_value v h c)
      | InsertAny a \<Rightarrow> Inr (insert_any a h c)
      | Update tid a \<Rightarrow> update tid a h c
      | Remove tid \<Rightarrow> remove tid h c
      | ClearContent \<Rightarrow> Inr (clearContent h c))"

text \<open>
  A caller that makes the calls one after the other. A call that throws
  \<^verbatim>\<open>std::out_of_range\<close> has not written to the column yet (the \<^verbatim>\<open>at\<close> comes first),
  so a caller that catches the exception goes on with the column as it was. Nothing can
  be said after undefined behaviour.
\<close>

fun calls :: "'a::linorder call list \<Rightarrow> 'a heap \<Rightarrow> column \<Rightarrow> failure + ('a heap \<times> column)" where
  "calls [] h c = Inr (h, c)"
| "calls (x # xs) h c =
     (case call x h c of
        Inl OutOfRange \<Rightarrow> calls xs h c
      | Inl Undefined \<Rightarrow> Inl Undefined
      | Inr (ok, h', c') \<Rightarrow> calls xs h' c')"

section \<open>Lemmas\<close>

subsection \<open>The store and the map operations\<close>

lemma deref_update: "deref (h[a := x]) b = (if b = a \<and> a < length h then x else deref h b)"
  by (auto simp: deref_def)

lemma deref_append1: "deref (h @ [x]) b = (if b = length h then x else deref h b)"
  by (auto simp: deref_def nth_append)

lemma deref_length: "deref h (length h) = None"
  by (simp add: deref_def)

lemma deref_Some_less: "deref h a = Some x \<Longrightarrow> a < length h"
  by (auto simp: deref_def split: if_splits)

lemma key_of_update:
  "key_of (h[a := x]) b = (if b = a \<and> a < length h then map_option fst x else key_of h b)"
  by (simp add: key_of_def deref_update)

lemma key_of_append1:
  "key_of (h @ [x]) b = (if b = length h then map_option fst x else key_of h b)"
  by (simp add: key_of_def deref_append1)

lemma wf_refs_node:
  assumes "wf_refs h vals M" "a \<in> set vals"
  shows "\<exists>k n. deref h a = Some (k, n) \<and> n \<noteq> 0 \<and> unat n = count M a \<and> a < length h"
proof -
  from assms have "case deref h a of None \<Rightarrow> False | Some (k, n) \<Rightarrow> n \<noteq> 0 \<and> unat n = count M a"
    by (simp add: wf_refs_def)
  then show ?thesis
    by (cases "deref h a") (auto dest: deref_Some_less)
qed

lemma map_find_Some:
  "map_find h vals v = Some a \<Longrightarrow> a \<in> set vals \<and> key_of h a = Some v"
  by (auto simp: map_find_def find_Some_iff)

lemma map_find_None:
  "map_find h vals v = None \<longleftrightarrow> (\<forall>a\<in>set vals. key_of h a \<noteq> Some v)"
  by (auto simp: map_find_def find_None_iff)

lemma word_dec_zero: "(n::size_t) - 1 = 0 \<longleftrightarrow> n = 1"
  by auto

lemma decrement_or_erase_wf:
  assumes wf: "wf_refs h vals M" and a: "a \<in># M"
  shows "\<exists>h' vals'. decrement_or_erase a h vals = Inr (h', vals') \<and>
           wf_refs h' vals' (M - {#a#}) \<and> length h' = length h \<and>
           (\<forall>b. b \<noteq> a \<longrightarrow> deref h' b = deref h b) \<and>
           (\<forall>b \<in># M - {#a#}. key_of h' b = key_of h b) \<and>
           (if count M a = 1 then deref h' a = None \<and> vals' = remove1 a vals
            else vals' = vals \<and> key_of h' a = key_of h a \<and>
                 count_of h' a = map_option (\<lambda>n. n - 1) (count_of h a))"
proof -
  from wf a have av: "a \<in> set vals" by (auto simp: wf_refs_def)
  from wf_refs_node[OF wf av] obtain k n where
    d: "deref h a = Some (k, n)" and n0: "n \<noteq> 0" and un: "unat n = count M a" and al: "a < length h"
    by blast
  have dk: "distinct (map (key_of h) vals)" and sub: "set_mset M \<subseteq> set vals"
    using wf by (auto simp: wf_refs_def)
  have nodes: "\<And>b. b \<in> set vals \<Longrightarrow> case deref h b of None \<Rightarrow> False | Some (k, n) \<Rightarrow> n \<noteq> 0 \<and> unat n = count M b"
    using wf by (auto simp: wf_refs_def)
  have one: "n = 1 \<longleftrightarrow> count M a = 1"
    using un by (metis unat_1 word_unat_eq_iff)
  show ?thesis
  proof (cases "n = 1")
    case True
    then have c1: "count M a = 1" using one by simp
    have res: "decrement_or_erase a h vals = Inr (h[a := None], remove1 a vals)"
      using d True av by (simp add: decrement_or_erase_def map_erase_def)
    have dv: "distinct vals" using dk by (simp add: distinct_map)
    have notin: "a \<notin># M - {#a#}" using c1 by (simp add: not_in_iff)
    have w: "wf_refs (h[a := None]) (remove1 a vals) (M - {#a#})"
      unfolding wf_refs_def
    proof (intro conjI ballI)
      fix b assume "b \<in> set (remove1 a vals)"
      then have "b \<in> set vals" "b \<noteq> a" using dv by auto
      then show "case deref (h[a := None]) b of None \<Rightarrow> False | Some (k, n) \<Rightarrow> n \<noteq> 0 \<and> unat n = count (M - {#a#}) b"
        using nodes[of b] by (auto simp: deref_update split: option.splits)
    next
      have eq: "map (key_of (h[a := None])) (remove1 a vals) = map (key_of h) (remove1 a vals)"
        using dv by (auto simp: key_of_update)
      show "distinct (map (key_of (h[a := None])) (remove1 a vals))"
        unfolding eq using dk dv by (auto simp: distinct_map intro: inj_on_subset)
    next
      show "set_mset (M - {#a#}) \<subseteq> set (remove1 a vals)"
        using sub notin dv by (auto dest: in_diffD)
    qed
    show ?thesis using res w c1 al notin
      by (auto simp: deref_update key_of_update)
  next
    case False
    then have c1: "count M a \<noteq> 1" using one by simp
    let ?h = "h[a := Some (k, n - 1)]"
    have res: "decrement_or_erase a h vals = Inr (?h, vals)"
      using d False by (simp add: decrement_or_erase_def Let_def)
    have keys: "\<And>b. key_of ?h b = key_of h b"
      using d by (auto simp: key_of_def deref_update)
    have un': "unat (n - 1) = count M a - 1"
      using n0 un by (simp add: unat_minus_one)
    have w: "wf_refs ?h vals (M - {#a#})"
      unfolding wf_refs_def
    proof (intro conjI ballI)
      fix b assume b: "b \<in> set vals"
      show "case deref ?h b of None \<Rightarrow> False | Some (k, n) \<Rightarrow> n \<noteq> 0 \<and> unat n = count (M - {#a#}) b"
      proof (cases "b = a")
        case True
        then show ?thesis using al un' False by (simp add: deref_update)
      next
        case False
        then show ?thesis using nodes[OF b] by (auto simp: deref_update split: option.splits)
      qed
    next
      have "key_of ?h = key_of h" using keys by (rule ext)
      then show "distinct (map (key_of ?h) vals)" using dk by simp
    next
      show "set_mset (M - {#a#}) \<subseteq> set vals" using sub by (auto dest: in_diffD)
    qed
    show ?thesis using res w c1 al keys d
      by (auto simp: deref_update count_of_def)
  qed
qed


lemma find_distinct_key:
  "distinct (map f xs) \<Longrightarrow> a \<in> set xs \<Longrightarrow> f a = y \<Longrightarrow> List.find (\<lambda>b. f b = y) xs = Some a"
  by (induction xs) auto

lemma map_find_wf:
  "wf_refs h vals M \<Longrightarrow> a \<in> set vals \<Longrightarrow> key_of h a = Some v \<Longrightarrow> map_find h vals v = Some a"
  unfolding map_find_def wf_refs_def by (intro find_distinct_key) auto

lemma find_or_emplace_found:
  assumes "map_find h vals v = Some it"
  shows "\<exists>n. deref h it = Some (v, n) \<and> find_or_emplace v h vals = (it, h[it := Some (v, n + 1)], vals)"
proof -
  from map_find_Some[OF assms] have "key_of h it = Some v" by simp
  then obtain n where "deref h it = Some (v, n)"
    by (auto simp: key_of_def)
  then show ?thesis using assms by (simp add: find_or_emplace_def)
qed

lemma find_or_emplace_new:
  assumes "map_find h vals v = None"
  shows "find_or_emplace v h vals =
           (length h, h @ [Some (v, 1)],
            insort_key (\<lambda>b. the (key_of (h @ [Some (v, 1)]) b)) (length h) vals)"
  using assms by (simp add: find_or_emplace_def map_emplace_def Let_def)

lemma find_or_emplace_wf:
  assumes wf: "wf_refs h vals M" and bound: "size M + 1 < 2 ^ 64"
  shows "\<exists>it h' vals'. find_or_emplace v h vals = (it, h', vals') \<and>
           wf_refs h' vals' (add_mset it M) \<and> key_of h' it = Some v \<and>
           (\<forall>b. b \<noteq> it \<longrightarrow> b < length h \<longrightarrow> deref h' b = deref h b) \<and>
           (\<forall>b\<in>set vals. key_of h' b = key_of h b)"
proof -
  have dk: "distinct (map (key_of h) vals)" and sub: "set_mset M \<subseteq> set vals"
    using wf by (auto simp: wf_refs_def)
  have nodes: "\<And>b. b \<in> set vals \<Longrightarrow> case deref h b of None \<Rightarrow> False | Some (k, n) \<Rightarrow> n \<noteq> 0 \<and> unat n = count M b"
    using wf by (auto simp: wf_refs_def)
  show ?thesis
  proof (cases "map_find h vals v")
    case None
    let ?it = "length h"
    let ?h = "h @ [Some (v, 1)]"
    let ?vals = "insort_key (\<lambda>b. the (key_of ?h b)) ?it vals"
    have res: "find_or_emplace v h vals = (?it, ?h, ?vals)"
      using None by (rule find_or_emplace_new)
    have live: "\<And>b. b \<in> set vals \<Longrightarrow> b < length h"
      using wf_refs_node[OF wf] by blast
    then have fresh: "?it \<notin> set vals" by blast
    then have cnt0: "count M ?it = 0" using sub by (auto simp: count_eq_zero_iff)
    have nokey: "\<And>b. b \<in> set vals \<Longrightarrow> key_of h b \<noteq> Some v"
      using None by (simp add: map_find_None)
    have w: "wf_refs ?h ?vals (add_mset ?it M)"
      unfolding wf_refs_def
    proof (intro conjI ballI)
      fix b assume "b \<in> set ?vals"
      then consider "b = ?it" | "b \<in> set vals" "b \<noteq> ?it"
        using fresh by (auto simp: set_insort_key)
      then show "case deref ?h b of None \<Rightarrow> False | Some (k, n) \<Rightarrow> n \<noteq> 0 \<and> unat n = count (add_mset ?it M) b"
      proof cases
        case 1
        then show ?thesis using cnt0 by (simp add: deref_append1)
      next
        case 2
        then show ?thesis using nodes[of b] by (auto simp: deref_append1 split: option.splits)
      qed
    next
      have eq: "map (key_of ?h) vals = map (key_of h) vals"
        using fresh by (auto simp: key_of_append1)
      have "distinct ?vals" using fresh dk by (simp add: distinct_insort distinct_map)
      moreover have "inj_on (key_of ?h) (set ?vals)"
        unfolding set_insort_key
      proof (rule inj_onI)
        fix x y assume xy: "x \<in> insert ?it (set vals)" "y \<in> insert ?it (set vals)"
          and k: "key_of ?h x = key_of ?h y"
        have old: "\<And>b. b \<in> set vals \<Longrightarrow> key_of ?h b = key_of h b \<and> key_of h b \<noteq> Some v"
          using fresh nokey by (auto simp: key_of_append1)
        have new: "key_of ?h ?it = Some v" by (simp add: key_of_append1)
        from dk have inj: "inj_on (key_of h) (set vals)" by (simp add: distinct_map)
        show "x = y"
        proof (cases "x = ?it")
          case True
          then show ?thesis using xy k old[of y] new by auto
        next
          case False
          then have xv: "x \<in> set vals" using xy by simp
          show ?thesis
          proof (cases "y = ?it")
            case True
            then show ?thesis using k old[OF xv] new by auto
          next
            case False
            then have yv: "y \<in> set vals" using xy by simp
            from k old[OF xv] old[OF yv] have "key_of h x = key_of h y" by simp
            then show ?thesis using inj xv yv by (auto dest: inj_onD)
          qed
        qed
      qed
      ultimately show "distinct (map (key_of ?h) ?vals)" by (simp add: distinct_map)
    next
      show "set_mset (add_mset ?it M) \<subseteq> set ?vals"
        using sub by (auto simp: set_insort_key)
    qed
    show ?thesis using res w fresh
      by (auto simp: key_of_append1 deref_append1)
  next
    case (Some it)
    from find_or_emplace_found[OF Some] obtain n where
      d: "deref h it = Some (v, n)" and
      res: "find_or_emplace v h vals = (it, h[it := Some (v, n + 1)], vals)" by blast
    let ?h = "h[it := Some (v, n + 1)]"
    have iv: "it \<in> set vals" using map_find_Some[OF Some] by simp
    have il: "it < length h" using d by (rule deref_Some_less)
    from nodes[OF iv] d have n0: "n \<noteq> 0" and un: "unat n = count M it" by auto
    have "count M it \<le> size M" by (rule count_le_size)
    then have "unat n + unat (1::size_t) < 2 ^ LENGTH(64)" using un bound by simp
    then have un': "unat (n + 1) = unat n + 1"
      by (simp add: unat_add_lem[THEN iffD1])
    then have n1: "n + 1 \<noteq> 0" by (metis Suc_eq_plus1 nat.simps(3) unat_0)
    have keys: "key_of ?h = key_of h"
      by (rule ext) (use d in \<open>auto simp: key_of_def deref_update\<close>)
    have w: "wf_refs ?h vals (add_mset it M)"
      unfolding wf_refs_def
    proof (intro conjI ballI)
      fix b assume b: "b \<in> set vals"
      show "case deref ?h b of None \<Rightarrow> False | Some (k, n) \<Rightarrow> n \<noteq> 0 \<and> unat n = count (add_mset it M) b"
      proof (cases "b = it")
        case True
        then show ?thesis using il un' n1 un by (simp add: deref_update)
      next
        case False
        then show ?thesis using nodes[OF b] by (auto simp: deref_update split: option.splits)
      qed
    next
      show "distinct (map (key_of ?h) vals)" using dk keys by simp
    next
      show "set_mset (add_mset it M) \<subseteq> set vals" using sub iv by auto
    qed
    show ?thesis using res w keys d il
      by (auto simp: deref_update key_of_def)
  qed
qed


declare shift_left.simps [simp del] decimal_digits.simps [simp del]

lemma shift_left_butlast:
  "i < length pos \<Longrightarrow> butlast (shift_left i pos) = take i pos @ drop (Suc i) pos"
proof (induction i pos rule: shift_left.induct)
  case (1 i pos)
  show ?case
  proof (cases "i < length pos - 1")
    case True
    then have si: "Suc i < length pos" by simp
    have "butlast (shift_left i pos) = butlast (shift_left (Suc i) (pos[i := pos ! Suc i]))"
      using True by (subst shift_left.simps) simp
    also have "\<dots> = take (Suc i) (pos[i := pos ! Suc i]) @ drop (Suc (Suc i)) (pos[i := pos ! Suc i])"
      using "1.IH"[OF True] si by simp
    also have "\<dots> = take i pos @ [pos ! Suc i] @ drop (Suc (Suc i)) pos"
      using si by (simp add: take_Suc_conv_app_nth)
    also have "\<dots> = take i pos @ drop (Suc i) pos"
      using si by (simp add: Cons_nth_drop_Suc)
    finally show ?thesis .
  next
    case False
    with "1.prems" have "i = length pos - 1" by simp
    then show ?thesis using False by (subst shift_left.simps) (simp add: butlast_conv_take)
  qed
qed

lemma mset_take_drop:
  "i < length xs \<Longrightarrow> mset (take i xs @ drop (Suc i) xs) = mset xs - {#xs ! i#}"
proof -
  assume i: "i < length xs"
  have "mset xs = mset (take i xs @ xs ! i # drop (Suc i) xs)"
    using id_take_nth_drop[OF i] by simp
  then show ?thesis by simp
qed

lemma insert_value_wf:
  assumes "wf_column h c" "size_column c + 1 < 2 ^ 64"
  shows "wf_column (fst (snd (insert_value v h c))) (snd (snd (insert_value v h c)))"
proof -
  from assms have w: "wf_refs h (col_values c) (mset (col_position c))"
    and b: "size (mset (col_position c)) + 1 < 2 ^ 64"
    by (simp_all add: wf_column_def size_column_def)
  from find_or_emplace_wf[OF w b, of v] obtain it h' vals' where
    "find_or_emplace v h (col_values c) = (it, h', vals')"
    "wf_refs h' vals' (add_mset it (mset (col_position c)))" by blast
  then show ?thesis by (simp add: insert_value_def wf_column_def)
qed

lemma insert_value_size:
  "size_column (snd (snd (insert_value v h c))) = size_column c + 1"
  by (simp add: insert_value_def size_column_def split: prod.splits)

lemma insert_any_wf:
  assumes "wf_column h c" "size_column c + 1 < 2 ^ 64"
  shows "wf_column (fst (snd (insert_any a h c))) (snd (snd (insert_any a h c)))"
  using assms insert_value_wf[OF assms] by (cases a) (simp_all add: insert_any_def)

lemma insert_any_size:
  "size_column (snd (snd (insert_any a h c))) \<le> size_column c + 1"
  by (cases a) (simp_all add: insert_any_def insert_value_size)

lemma remove_wf:
  assumes w: "wf_column h c" and t: "tid < size_column c"
  shows "\<exists>h' c'. remove tid h c = Inr (True, h', c') \<and> wf_column h' c' \<and>
           size_column c' = size_column c - 1"
proof -
  let ?pos = "col_position c"
  from t have tl: "tid < length ?pos" by (simp add: size_column_def)
  from w have w': "wf_refs h (col_values c) (mset ?pos)" by (simp add: wf_column_def)
  have m: "?pos ! tid \<in># mset ?pos" using tl by simp
  from decrement_or_erase_wf[OF w' m] obtain h' vals' where
    r: "decrement_or_erase (?pos ! tid) h (col_values c) = Inr (h', vals')" and
    w'': "wf_refs h' vals' (mset ?pos - {#?pos ! tid#})" by blast
  have "remove tid h c = Inr (True, h', \<lparr>col_values = vals', col_position = take tid ?pos @ drop (Suc tid) ?pos\<rparr>)"
    using tl r by (simp add: remove_def shift_left_butlast)
  then show ?thesis using w'' tl mset_take_drop[OF tl]
    by (simp add: wf_column_def size_column_def)
qed

lemma clearContent_wf: "wf_column (fst (snd (clearContent h c))) (snd (snd (clearContent h c)))"
  by (simp add: clearContent_def wf_column_def wf_refs_def empty_column_def)

lemma update_wf:
  assumes w: "wf_column h c" and t: "tid < size_column c" and b: "size_column c + 1 < 2 ^ 64"
  shows "\<exists>h' c'. update tid (AnyT v) h c = Inr (True, h', c') \<and> wf_column h' c' \<and>
           size_column c' = size_column c + 1"
proof -
  let ?pos = "col_position c"
  from t have tl: "tid < length ?pos" by (simp add: size_column_def)
  from w have w': "wf_refs h (col_values c) (mset ?pos)" by (simp add: wf_column_def)
  have m: "?pos ! tid \<in># mset ?pos" using tl by simp
  from decrement_or_erase_wf[OF w' m] obtain h1 vals1 where
    r: "decrement_or_erase (?pos ! tid) h (col_values c) = Inr (h1, vals1)" and
    w1: "wf_refs h1 vals1 (mset ?pos - {#?pos ! tid#})" by blast
  have b1: "size (mset ?pos - {#?pos ! tid#}) + 1 < 2 ^ 64"
    using b m by (simp add: size_column_def size_Diff_singleton)
  from find_or_emplace_wf[OF w1 b1, of v] obtain elem h2 vals2 where
    f: "find_or_emplace v h1 vals1 = (elem, h2, vals2)" and
    w2: "wf_refs h2 vals2 (add_mset elem (mset ?pos - {#?pos ! tid#}))" by blast
  let ?c2 = "\<lparr>col_values = vals2, col_position = ?pos[tid := elem]\<rparr>"
  have wc2: "wf_column h2 ?c2" using w2 tl by (simp add: wf_column_def mset_update)
  have sc2: "size_column ?c2 = size_column c" by (simp add: size_column_def)
  have u: "update tid (AnyT v) h c = Inr (insert_value v h2 ?c2)"
    using tl r f by (simp add: update_def insert_any_def)
  have "fst (insert_value v h2 ?c2) = True"
    by (simp add: insert_value_def split: prod.splits)
  moreover have "wf_column (fst (snd (insert_value v h2 ?c2))) (snd (snd (insert_value v h2 ?c2)))"
    using wc2 b sc2 by (intro insert_value_wf) simp_all
  moreover have "size_column (snd (snd (insert_value v h2 ?c2))) = size_column c + 1"
    using sc2 by (simp add: insert_value_size)
  ultimately show ?thesis using u
    by (cases "insert_value v h2 ?c2") auto
qed

lemma decrement_or_erase_live:
  assumes "deref h a = Some (k, n)" "a \<in> set vals"
  shows "decrement_or_erase a h vals =
           Inr (if n = 1 then (h[a := None], remove1 a vals) else (h[a := Some (k, n - 1)], vals))"
  using assms by (simp add: decrement_or_erase_def map_erase_def Let_def)

lemma get_key_of:
  "get tid h c =
     (if tid < size_column c
      then (case key_of h (col_position c ! tid) of None \<Rightarrow> Inl Undefined | Some k \<Rightarrow> Inr (AnyT k))
      else Inl OutOfRange)"
  by (auto simp: get_def key_of_def size_column_def split: option.splits)

lemma nth_take_drop:
  "i < length xs \<Longrightarrow> j < length xs - 1 \<Longrightarrow>
   (take i xs @ drop (Suc i) xs) ! j = (if j < i then xs ! j else xs ! Suc j)"
  by (auto simp: nth_append min_def)

lemma insert_range_size:
  "fst (insert_range vs h c) \<and>
   size_column (snd (snd (insert_range vs h c))) = size_column c + length vs"
proof (induction vs arbitrary: h c)
  case Nil
  then show ?case by simp
next
  case (Cons v vs)
  obtain ok h' c' where i: "insert_value v h c = (ok, h', c')" by (cases "insert_value v h c")
  then have "ok" "size_column c' = size_column c + 1"
    using insert_value_size[of v h c] by (auto simp: insert_value_def split: prod.splits)
  then show ?case using i Cons.IH[of h' c'] by simp
qed

subsection \<open>Sequences of calls keep the invariants\<close>

lemma call_step:
  assumes w: "wf_column h c" and b: "size_column c + 1 < 2 ^ 64"
  shows "call x h c = Inl OutOfRange \<or>
         (\<exists>ok h' c'. call x h c = Inr (ok, h', c') \<and> wf_column h' c' \<and> size_column c' \<le> size_column c + 1)"
proof (cases x)
  case (Insert v)
  then show ?thesis
    using insert_value_wf[OF w b, of v] insert_value_size[of v h c]
    by (cases "insert_value v h c") (simp add: call_def)
next
  case (InsertAny a)
  then show ?thesis
    using insert_any_wf[OF w b, of a] insert_any_size[of a h c]
    by (cases "insert_any a h c") (simp add: call_def)
next
  case (Update tid a)
  show ?thesis
  proof (cases a)
    case (AnyT v)
    show ?thesis
    proof (cases "tid < size_column c")
      case True
      from update_wf[OF w True b, of v] show ?thesis
        using Update AnyT by (auto simp: call_def)
    next
      case False
      then show ?thesis using Update AnyT by (simp add: call_def update_def size_column_def)
    qed
  qed (use Update w in \<open>auto simp: call_def update_def\<close>)
next
  case (Remove tid)
  show ?thesis
  proof (cases "tid < size_column c")
    case True
    from remove_wf[OF w True] show ?thesis
      using Remove by (auto simp: call_def)
  next
    case False
    then show ?thesis using Remove by (simp add: call_def remove_def size_column_def)
  qed
next
  case ClearContent
  then show ?thesis
    using clearContent_wf[of h c]
    by (auto simp: call_def clearContent_def size_column_def empty_column_def)
qed

lemma calls_wf:
  "wf_column h c \<Longrightarrow> size_column c + length xs < 2 ^ 64 \<Longrightarrow>
   \<exists>h' c'. calls xs h c = Inr (h', c') \<and> wf_column h' c'"
proof (induction xs arbitrary: h c)
  case Nil
  then show ?case by simp
next
  case (Cons x xs)
  from Cons.prems have b: "size_column c + 1 < 2 ^ 64" by simp
  from call_step[OF Cons.prems(1) b, of x] show ?case
  proof
    assume "call x h c = Inl OutOfRange"
    then show ?thesis using Cons.IH[of h c] Cons.prems by simp
  next
    assume "\<exists>ok h' c'. call x h c = Inr (ok, h', c') \<and> wf_column h' c' \<and> size_column c' \<le> size_column c + 1"
    then obtain ok h' c' where s: "call x h c = Inr (ok, h', c')" "wf_column h' c'"
      "size_column c' \<le> size_column c + 1" by blast
    then have "size_column c' + length xs < 2 ^ 64" using Cons.prems(2) by simp
    from Cons.IH[OF s(2) this] show ?thesis using s(1) by simp
  qed
qed

lemma wf_empty_column: "wf_column h empty_column"
  by (simp add: wf_column_def wf_refs_def empty_column_def)

lemma count_list_card: "count_list xs a = card {i. i < length xs \<and> xs ! i = a}"
proof -
  have "{i. i < length xs \<and> a = xs ! i} = {i. i < length xs \<and> xs ! i = a}" by auto
  then show ?thesis
    by (simp add: count_list_eq_length_filter length_filter_conv_card)
qed

lemma wf_counts:
  assumes "wf_column h c" "a \<in> set (col_values c)"
  shows "\<exists>k n. deref h a = Some (k, n) \<and> n \<noteq> 0 \<and>
           unat n = card {i. i < size_column c \<and> col_position c ! i = a}"
  using wf_refs_node[OF assms[unfolded wf_column_def]]
  by (auto simp: count_mset count_list_card size_column_def)

subsection \<open>The serializer\<close>

lemma map_emplace_cases:
  "map_emplace v n h vals =
     (case map_find h vals v of
        Some it \<Rightarrow> (it, h, vals)
      | None \<Rightarrow> (length h, h @ [Some (v, n)],
                 insort_key (\<lambda>b. the (key_of (h @ [Some (v, n)]) b)) (length h) vals))"
  by (simp add: map_emplace_def Let_def split: option.splits)

lemma find_insort_key:
  "\<not> P x \<Longrightarrow> List.find P (insort_key f x xs) = List.find P xs"
  by (induction xs) auto

lemma find_cong_set:
  "(\<And>x. x \<in> set xs \<Longrightarrow> P x = Q x) \<Longrightarrow> List.find P xs = List.find Q xs"
  by (induction xs) auto

lemma map_emplace_old_nodes:
  assumes "map_emplace v n h vals = (it, h', vals')"
  shows "length h \<le> length h' \<and> (\<forall>b<length h. deref h' b = deref h b)"
  using assms by (auto simp: map_emplace_cases deref_append1 split: option.splits)

lemma key_of_length: "key_of h (length h) = None"
  by (simp add: key_of_def deref_length)

lemma map_emplace_find_stable:
  assumes e: "map_emplace w n h vals = (it, h', vals')" and f: "map_find h vals v = Some a"
  shows "map_find h' vals' v = Some a"
proof (cases "map_find h vals w")
  case (Some b)
  then show ?thesis using e f by (simp add: map_emplace_cases)
next
  case None
  let ?h = "h @ [Some (w, n)]"
  from None f have wv: "w \<noteq> v" by auto
  have h': "h' = ?h" and vals': "vals' = insort_key (\<lambda>b. the (key_of ?h b)) (length h) vals"
    using e None by (auto simp: map_emplace_cases)
  have "List.find (\<lambda>b. key_of ?h b = Some v) vals' = List.find (\<lambda>b. key_of ?h b = Some v) vals"
    unfolding vals' using wv by (intro find_insort_key) (simp add: key_of_append1)
  also have "\<dots> = List.find (\<lambda>b. key_of h b = Some v) vals"
    using wv by (intro find_cong_set) (auto simp: key_of_append1 key_of_length)
  finally show ?thesis using f by (simp add: map_find_def h')
qed

lemma load_values_acc:
  "load_values recs h vals refs =
     (case load_values recs h vals [] of (h', vals', new) \<Rightarrow> (h', vals', refs @ new))"
proof (induction recs arbitrary: h vals refs)
  case Nil
  then show ?case by simp
next
  case (Cons r recs)
  obtain n k where r: "r = (n, k)" by (cases r)
  obtain it h1 vals1 where e: "map_emplace k n h vals = (it, h1, vals1)"
    by (cases "map_emplace k n h vals")
  show ?case
    using Cons.IH[of h1 vals1 "refs @ [it]"] Cons.IH[of h1 vals1 "[it]"]
    by (simp add: r e split: prod.splits)
qed

lemma load_values_Cons:
  assumes "map_emplace k n h vals = (it, h1, vals1)"
    and "load_values recs h1 vals1 [] = (h', vals', new)"
  shows "load_values ((n, k) # recs) h vals [] = (h', vals', it # new)"
  using assms load_values_acc[of recs h1 vals1 "[it]"] by simp

lemma load_values_old_nodes:
  "load_values recs h vals [] = (h', vals', new) \<Longrightarrow>
   length new = length recs \<and> length h \<le> length h' \<and> (\<forall>b<length h. deref h' b = deref h b)"
proof (induction recs arbitrary: h vals h' vals' new)
  case Nil
  then show ?case by simp
next
  case (Cons r recs)
  obtain n k where r: "r = (n, k)" by (cases r)
  obtain it h1 vals1 where e: "map_emplace k n h vals = (it, h1, vals1)"
    by (cases "map_emplace k n h vals")
  obtain h2 vals2 new2 where l: "load_values recs h1 vals1 [] = (h2, vals2, new2)"
    by (cases "load_values recs h1 vals1 []")
  from load_values_Cons[OF e l] Cons.prems r
  have eq: "h' = h2" "vals' = vals2" "new = it # new2" by simp_all
  from Cons.IH[OF l] map_emplace_old_nodes[OF e] show ?case
    unfolding eq by auto
qed

lemma load_values_find_stable:
  "load_values recs h vals [] = (h', vals', new) \<Longrightarrow> map_find h vals v = Some a \<Longrightarrow>
   map_find h' vals' v = Some a"
proof (induction recs arbitrary: h vals h' vals' new)
  case Nil
  then show ?case by simp
next
  case (Cons r recs)
  obtain n k where r: "r = (n, k)" by (cases r)
  obtain it h1 vals1 where e: "map_emplace k n h vals = (it, h1, vals1)"
    by (cases "map_emplace k n h vals")
  obtain h2 vals2 new2 where l: "load_values recs h1 vals1 [] = (h2, vals2, new2)"
    by (cases "load_values recs h1 vals1 []")
  from load_values_Cons[OF e l] Cons.prems(1) r
  have eq: "h' = h2" "vals' = vals2" by simp_all
  from Cons.IH[OF l map_emplace_find_stable[OF e Cons.prems(2)]] show ?case
    unfolding eq .
qed

lemma load_values_present:
  "load_values recs h vals [] = (h', vals', new) \<Longrightarrow> j < length recs \<Longrightarrow>
   map_find h vals (snd (recs ! j)) = Some a \<Longrightarrow> new ! j = a"
proof (induction recs arbitrary: h vals h' vals' new j)
  case Nil
  then show ?case by simp
next
  case (Cons r recs)
  obtain n k where r: "r = (n, k)" by (cases r)
  obtain it h1 vals1 where e: "map_emplace k n h vals = (it, h1, vals1)"
    by (cases "map_emplace k n h vals")
  obtain h2 vals2 new2 where l: "load_values recs h1 vals1 [] = (h2, vals2, new2)"
    by (cases "load_values recs h1 vals1 []")
  from load_values_Cons[OF e l] Cons.prems(1) r
  have eq: "new = it # new2" by simp
  show ?case
  proof (cases j)
    case 0
    then have "map_find h vals k = Some a" using Cons.prems(3) r by simp
    then have "it = a" using e by (simp add: map_emplace_cases)
    then show ?thesis using 0 eq by simp
  next
    case (Suc j')
    then have j': "j' < length recs" and f: "map_find h vals (snd (recs ! j')) = Some a"
      using Cons.prems by simp_all
    from Cons.IH[OF l j' map_emplace_find_stable[OF e f]] show ?thesis
      using Suc eq by simp
  qed
qed

lemma load_position_append:
  "\<forall>p\<in>set ords. unat p < length refs \<Longrightarrow>
   load_position ords refs pos = Inr (pos @ map (\<lambda>p. refs ! unat p) ords)"
  by (induction ords arbitrary: pos) simp_all










section \<open>The claims\<close>

text \<open>
  C4. After any finite sequence of \<^verbatim>\<open>insert\<close>, \<^verbatim>\<open>update\<close>, \<^verbatim>\<open>remove\<close> and
  \<^verbatim>\<open>clearContent\<close> calls on an empty column, the count of every dictionary entry is the
  number of position slots that hold the handle of that entry, and no entry has count 0.
  The counts are \<^verbatim>\<open>size_t\<close>, so the sequence is taken to be shorter than \<open>2^64\<close> calls
  (each call adds at most one row, and a vector cannot hold \<open>2^64\<close> iterators).
\<close>

theorem calls_count_consistent:
  assumes "length xs < 2 ^ 64"
  shows "\<exists>h c. calls xs h0 empty_column = Inr (h, c) \<and>
           (\<forall>e\<in>set (col_values c). \<exists>k n. deref h e = Some (k, n) \<and> n \<noteq> 0 \<and>
              unat n = card {i. i < size_column c \<and> col_position c ! i = e})"
proof -
  have "size_column empty_column + length xs < 2 ^ 64"
    using assms by (simp add: size_column_def empty_column_def)
  from calls_wf[OF wf_empty_column this] obtain h c where
    "calls xs h0 empty_column = Inr (h, c)" "wf_column h c" by blast
  then show ?thesis using wf_counts by blast
qed


theorem calls_count_consistent_witness:
  "length [Insert (5::int), Insert 3, Update 0 (AnyT 3), Remove 7, InsertAny AnyOther,
           Remove 1, Update 0 (AnyT 9)] < 2 ^ 64 \<and>
   calls [Insert (5::int), Insert 3, Update 0 (AnyT 3), Remove 7, InsertAny AnyOther,
          Remove 1, Update 0 (AnyT 9)] [] empty_column =
     Inr ([None, Some (3, 1), Some (9, 2)], \<lparr>col_values = [1, 2], col_position = [2, 1, 2]\<rparr>) \<and>
   (\<exists>h c. calls [Insert (5::int), Insert 3, Update 0 (AnyT 3), Remove 7, InsertAny AnyOther,
                 Remove 1, Update 0 (AnyT 9)] [] empty_column = Inr (h, c) \<and>
      (\<forall>e\<in>set (col_values c). \<exists>k n. deref h e = Some (k, n) \<and> n \<noteq> 0 \<and>
         unat n = card {i. i < size_column c \<and> col_position c ! i = e}))"
proof -
  let ?xs = "[Insert (5::int), Insert 3, Update 0 (AnyT 3), Remove 7, InsertAny AnyOther,
              Remove 1, Update 0 (AnyT 9)]"
  have h: "length ?xs < 2 ^ 64" by simp
  have e: "calls ?xs [] empty_column =
     Inr ([None, Some (3, 1), Some (9, 2)], \<lparr>col_values = [1, 2], col_position = [2, 1, 2]\<rparr>)"
    by code_simp
  show ?thesis using h e calls_count_consistent[OF h, of "[]"] by blast
qed

text \<open>
  C5. On a column that satisfies the invariants, \<^verbatim>\<open>remove(tid)\<close> with \<open>tid < N\<close> returns
  true; the count \<open>n\<close> of the entry of row \<open>tid\<close> becomes \<open>n - 1\<close>, and the entry is erased
  from the dictionary when that is 0; the slots after \<open>tid\<close> move one to the left and \<open>N\<close>
  shrinks by 1, so that row \<open>j > tid\<close> is read at \<open>j - 1\<close> with the same value and the rows
  before \<open>tid\<close> are untouched; the invariants hold again. With \<open>tid \<ge> N\<close> the call fails
  with \<^verbatim>\<open>std::out_of_range\<close>.
\<close>

theorem remove_shifts_rows:
  assumes w: "wf_column h c"
  shows "if tid < size_column c
         then \<exists>h' c' k n. remove tid h c = Inr (True, h', c') \<and> wf_column h' c' \<and>
                deref h (col_position c ! tid) = Some (k, n) \<and>
                (if n = 1
                 then deref h' (col_position c ! tid) = None \<and>
                      col_values c' = remove1 (col_position c ! tid) (col_values c)
                 else deref h' (col_position c ! tid) = Some (k, n - 1) \<and>
                      col_values c' = col_values c) \<and>
                col_position c' = take tid (col_position c) @ drop (Suc tid) (col_position c) \<and>
                size_column c = size_column c' + 1 \<and>
                (\<forall>j. tid < j \<and> j < size_column c \<longrightarrow> get (j - 1) h' c' = get j h c) \<and>
                (\<forall>j<tid. get j h' c' = get j h c)
         else remove tid h c = Inl OutOfRange"
proof (cases "tid < size_column c")
  case False
  then show ?thesis by (simp add: remove_def size_column_def)
next
  case True
  let ?pos = "col_position c"
  let ?a = "?pos ! tid"
  let ?pos' = "take tid ?pos @ drop (Suc tid) ?pos"
  from True have tl: "tid < length ?pos" by (simp add: size_column_def)
  from w have w': "wf_refs h (col_values c) (mset ?pos)" by (simp add: wf_column_def)
  have m: "?a \<in># mset ?pos" using tl by simp
  then have av: "?a \<in> set (col_values c)" using w' by (auto simp: wf_refs_def)
  from wf_refs_node[OF w' av] obtain k n where d: "deref h ?a = Some (k, n)" and al: "?a < length h"
    by blast
  from decrement_or_erase_wf[OF w' m] obtain h' vals' where
    r: "decrement_or_erase ?a h (col_values c) = Inr (h', vals')" and
    w'': "wf_refs h' vals' (mset ?pos - {#?a#})" and
    keys: "\<forall>b \<in># mset ?pos - {#?a#}. key_of h' b = key_of h b" by blast
  let ?c' = "\<lparr>col_values = vals', col_position = ?pos'\<rparr>"
  have res: "remove tid h c = Inr (True, h', ?c')"
    using tl r by (simp add: remove_def shift_left_butlast)
  have ms: "mset ?pos' = mset ?pos - {#?a#}" using tl by (rule mset_take_drop)
  have wc: "wf_column h' ?c'" using w'' ms by (simp add: wf_column_def del: mset_append)
  have cnt: "if n = 1 then deref h' ?a = None \<and> vals' = remove1 ?a (col_values c)
             else deref h' ?a = Some (k, n - 1) \<and> vals' = col_values c"
    using r decrement_or_erase_live[OF d av] al by (auto simp: deref_update split: if_splits)
  have sz: "size_column c = size_column ?c' + 1" using tl by (simp add: size_column_def)
  have same: "\<And>j. j < length ?pos' \<Longrightarrow> key_of h' (?pos' ! j) = key_of h (?pos' ! j)"
  proof -
    fix j assume "j < length ?pos'"
    then have "?pos' ! j \<in> set ?pos'" by (rule nth_mem)
    then have "?pos' ! j \<in># mset ?pos - {#?a#}" using ms by (metis set_mset_mset)
    then show "key_of h' (?pos' ! j) = key_of h (?pos' ! j)" using keys by blast
  qed
  have len: "length ?pos' = length ?pos - 1" using tl by simp
  have after: "\<forall>j. tid < j \<and> j < size_column c \<longrightarrow> get (j - 1) h' ?c' = get j h c"
  proof (intro allI impI)
    fix j assume j: "tid < j \<and> j < size_column c"
    then have j1: "j - 1 < length ?pos - 1" unfolding size_column_def by linarith
    have "\<not> j - 1 < tid" "Suc (j - 1) = j" using j by linarith+
    then have "?pos' ! (j - 1) = ?pos ! j" using nth_take_drop[OF tl j1] by simp
    then show "get (j - 1) h' ?c' = get j h c"
      using same[of "j - 1"] j1 len j by (simp add: get_key_of size_column_def)
  qed
  have before: "\<forall>j<tid. get j h' ?c' = get j h c"
  proof (intro allI impI)
    fix j assume j: "j < tid"
    then have j1: "j < length ?pos - 1" using tl by simp
    have "?pos' ! j = ?pos ! j" using nth_take_drop[OF tl j1] j by simp
    then show "get j h' ?c' = get j h c"
      using same[of j] j1 len j tl by (simp add: get_key_of size_column_def)
  qed
  show ?thesis using True res wc d cnt sz after before
    by (intro exI[of _ h'] exI[of _ ?c'] exI[of _ k] exI[of _ n] | simp)+
qed

theorem remove_shifts_rows_witness:
  "wf_column [Some (5::int, 2), Some (3, 1), Some (7, 1)]
     \<lparr>col_values = [1, 0, 2], col_position = [0, 1, 0, 2]\<rparr> \<and>
   remove 1 [Some (5::int, 2), Some (3, 1), Some (7, 1)]
     \<lparr>col_values = [1, 0, 2], col_position = [0, 1, 0, 2]\<rparr> =
     Inr (True, [Some (5, 2), None, Some (7, 1)],
          \<lparr>col_values = [0, 2], col_position = [0, 0, 2]\<rparr>) \<and>
   get (3 - 1) [Some (5::int, 2), None, Some (7, 1)]
     \<lparr>col_values = [0, 2], col_position = [0, 0, 2]\<rparr> =
   get 3 [Some (5::int, 2), Some (3, 1), Some (7, 1)]
     \<lparr>col_values = [1, 0, 2], col_position = [0, 1, 0, 2]\<rparr> \<and>
   get 0 [Some (5::int, 2), None, Some (7, 1)]
     \<lparr>col_values = [0, 2], col_position = [0, 0, 2]\<rparr> =
   get 0 [Some (5::int, 2), Some (3, 1), Some (7, 1)]
     \<lparr>col_values = [1, 0, 2], col_position = [0, 1, 0, 2]\<rparr>"
proof -
  let ?h = "[Some (5::int, 2), Some (3, 1), Some (7, 1)]"
  let ?c = "\<lparr>col_values = [1, 0, 2], col_position = [0, 1, 0, 2]\<rparr>"
  have w: "wf_column ?h ?c" by code_simp
  have r: "remove 1 ?h ?c =
     Inr (True, [Some (5, 2), None, Some (7, 1)],
          \<lparr>col_values = [0, 2], col_position = [0, 0, 2]\<rparr>)"
    by code_simp
  let ?h' = "[Some (5::int, 2), None, Some (7, 1)]"
  let ?c' = "\<lparr>col_values = [0, 2], col_position = [0, 0, 2]\<rparr>"
  have s: "1 < size_column ?c" "3 < size_column ?c" by (simp_all add: size_column_def)
  note t = remove_shifts_rows[OF w, of 1, unfolded if_P[OF s(1)]]
  then obtain h' c' where r': "remove 1 ?h ?c = Inr (True, h', c')"
    and a: "\<forall>j. 1 < j \<and> j < size_column ?c \<longrightarrow> get (j - 1) h' c' = get j ?h ?c"
    and b: "\<forall>j<1. get j h' c' = get j ?h ?c"
    by blast
  from r r' have eq: "h' = ?h'" "c' = ?c'" by simp_all
  have g1: "get (3 - 1) ?h' ?c' = get 3 ?h ?c"
    using a[rule_format, of 3] s(2) unfolding eq by simp
  have g2: "get 0 ?h' ?c' = get 0 ?h ?c"
    using b[rule_format, of 0] unfolding eq by simp
  show ?thesis by (rule conjI[OF w conjI[OF r conjI[OF g1 g2]]])
qed

text \<open>
  C6. \<^verbatim>\<open>insert(const T&)\<close> always returns true. If the value is in the dictionary, the
  count of its entry is incremented and the dictionary keeps its entries; otherwise a new
  entry with count 1 is created. No other entry changes. The handle of that entry is
  appended to the position vector, so the new row has the prior \<open>N\<close> as its TID and reads
  back as the value. Inserting a range of \<open>k\<close> values succeeds and adds \<open>k\<close> to the size.
\<close>

theorem insert_value_appends:
  "\<exists>it h' vals'.
     insert_value v h c =
       (True, h', \<lparr>col_values = vals', col_position = col_position c @ [it]\<rparr>) \<and>
     (case map_find h (col_values c) v of
        Some e \<Rightarrow>
          (\<exists>n. deref h e = Some (v, n) \<and> deref h' e = Some (v, n + 1)) \<and>
          it = e \<and> vals' = col_values c \<and> length h' = length h
      | None \<Rightarrow>
          deref h it = None \<and> deref h' it = Some (v, 1) \<and>
          set vals' = insert it (set (col_values c)) \<and> length h' = Suc (length h)) \<and>
     (\<forall>b. b \<noteq> it \<longrightarrow> deref h' b = deref h b) \<and>
     get (size_column c) h' \<lparr>col_values = vals', col_position = col_position c @ [it]\<rparr> =
       Inr (AnyT v) \<and>
     size_column \<lparr>col_values = vals', col_position = col_position c @ [it]\<rparr> =
       size_column c + 1 \<and>
     fst (insert_range vs h c) \<and>
     size_column (snd (snd (insert_range vs h c))) = size_column c + length vs"
proof (cases "map_find h (col_values c) v")
  case None
  let ?h = "h @ [Some (v, 1)]"
  let ?vals = "insort_key (\<lambda>b. the (key_of ?h b)) (length h) (col_values c)"
  have "insert_value v h c =
      (True, ?h, \<lparr>col_values = ?vals, col_position = col_position c @ [length h]\<rparr>)"
    using find_or_emplace_new[OF None] by (simp add: insert_value_def)
  then show ?thesis using None insert_range_size[of vs h c]
    by (intro exI[of _ "length h"] exI[of _ ?h] exI[of _ ?vals])
       (auto simp: deref_append1 deref_length set_insort_key get_def size_column_def)
next
  case (Some e)
  from find_or_emplace_found[OF Some] obtain n where
    d: "deref h e = Some (v, n)" and
    f: "find_or_emplace v h (col_values c) = (e, h[e := Some (v, n + 1)], col_values c)" by blast
  have el: "e < length h" using d by (rule deref_Some_less)
  have "insert_value v h c =
      (True, h[e := Some (v, n + 1)],
       \<lparr>col_values = col_values c, col_position = col_position c @ [e]\<rparr>)"
    using f by (simp add: insert_value_def)
  then show ?thesis using Some d el insert_range_size[of vs h c]
    by (intro exI[of _ e] exI[of _ "h[e := Some (v, n + 1)]"] exI[of _ "col_values c"])
       (auto simp: deref_update get_def size_column_def)
qed

theorem insert_value_appends_witness:
  "insert_value (5::int) [Some (5, 1), Some (3, 1)] \<lparr>col_values = [1, 0], col_position = [0, 1]\<rparr> =
     (True, [Some (5, 2), Some (3, 1)], \<lparr>col_values = [1, 0], col_position = [0, 1, 0]\<rparr>) \<and>
   insert_value (4::int) [Some (5, 1), Some (3, 1)] \<lparr>col_values = [1, 0], col_position = [0, 1]\<rparr> =
     (True, [Some (5, 1), Some (3, 1), Some (4, 1)],
      \<lparr>col_values = [1, 2, 0], col_position = [0, 1, 2]\<rparr>) \<and>
   size_column (snd (snd (insert_range [4, 5, 4::int] [Some (5, 1), Some (3, 1)]
      \<lparr>col_values = [1, 0], col_position = [0, 1]\<rparr>))) =
     size_column \<lparr>col_values = [1, 0], col_position = [0, 1]\<rparr> + length [4, 5, 4::int]"
proof -
  let ?h = "[Some (5::int, 1), Some (3, 1)]"
  let ?c = "\<lparr>col_values = [1, 0], col_position = [0, 1]\<rparr>"
  have a: "insert_value 5 ?h ?c =
     (True, [Some (5, 2), Some (3, 1)], \<lparr>col_values = [1, 0], col_position = [0, 1, 0]\<rparr>)"
    by code_simp
  have b: "insert_value 4 ?h ?c =
     (True, [Some (5, 1), Some (3, 1), Some (4, 1)],
      \<lparr>col_values = [1, 2, 0], col_position = [0, 1, 2]\<rparr>)"
    by code_simp
  show ?thesis using a b insert_value_appends[of 5 ?h ?c "[4, 5, 4]"] by blast
qed

text \<open>
  C7. \<^verbatim>\<open>insert(const boost::any&)\<close> returns false exactly when the holder is empty or holds
  a value of another type, and then leaves the column as it is; otherwise it is the typed
  insert of the value held, which returns true.
\<close>

theorem insert_any_checks_type:
  "(\<not> fst (insert_any a h c) \<longleftrightarrow> a = AnyEmpty \<or> a = AnyOther) \<and>
   (case a of
      AnyT v \<Rightarrow> insert_any a h c = insert_value v h c \<and> fst (insert_value v h c)
    | _ \<Rightarrow> insert_any a h c = (False, h, c))"
  by (cases a) (simp_all add: insert_any_def insert_value_def split: prod.splits)

theorem insert_any_checks_type_witness:
  "insert_any (AnyT (5::int)) [] empty_column = insert_value 5 [] empty_column \<and>
   insert_any (AnyT (5::int)) [] empty_column =
     (True, [Some (5, 1)], \<lparr>col_values = [0], col_position = [0]\<rparr>) \<and>
   insert_any (AnyEmpty :: int boost_any) [] empty_column = (False, [], empty_column) \<and>
   insert_any (AnyOther :: int boost_any) [] empty_column = (False, [], empty_column)"
proof -
  have e: "insert_value (5::int) [] empty_column =
      (True, [Some (5, 1)], \<lparr>col_values = [0], col_position = [0]\<rparr>)" by code_simp
  show ?thesis
    using e insert_any_checks_type[of "AnyT (5::int)" "[]" empty_column]
      insert_any_checks_type[of "AnyEmpty :: int boost_any" "[]" empty_column]
      insert_any_checks_type[of "AnyOther :: int boost_any" "[]" empty_column]
    by simp
qed

text \<open>
  C8. \<^verbatim>\<open>update\<close> with an empty holder or a holder of another type returns false, for every
  \<open>tid\<close>, and the dictionary and the position vector are what they were.
\<close>

theorem update_rejects_bad_holder:
  "a = AnyEmpty \<or> a = AnyOther \<Longrightarrow> update tid a h c = Inr (False, h, c)"
  by (auto simp: update_def)

theorem update_rejects_bad_holder_witness:
  "((AnyOther :: int boost_any) = AnyEmpty \<or> (AnyOther :: int boost_any) = AnyOther) \<and>
   update 0 (AnyOther :: int boost_any) [Some (5, 1)] \<lparr>col_values = [0], col_position = [0]\<rparr> =
     Inr (False, [Some (5, 1)], \<lparr>col_values = [0], col_position = [0]\<rparr>)"
proof -
  have h: "(AnyOther :: int boost_any) = AnyEmpty \<or> (AnyOther :: int boost_any) = AnyOther"
    by simp
  show ?thesis
    using h update_rejects_bad_holder[OF h, of 0 "[Some (5, 1)]"
      "\<lparr>col_values = [0], col_position = [0]\<rparr>"] by simp
qed

text \<open>
  C9, as claimed: an out-of-range \<open>tid\<close> is reported to the caller as a status and no
  exception leaves a public operation. The class has no handler anywhere, so the
  \<^verbatim>\<open>std::out_of_range\<close> of \<^verbatim>\<open>_position.at(tid)\<close> leaves \<^verbatim>\<open>remove\<close>, \<^verbatim>\<open>get\<close> and \<^verbatim>\<open>update\<close>:
  on the empty column, row 0 does not exist and the three calls throw.
\<close>

theorem out_of_range_returns_status_counterexample:
  "remove 0 ([] :: int heap) empty_column = Inl OutOfRange \<and>
   get 0 ([] :: int heap) empty_column = Inl OutOfRange \<and>
   update 0 (AnyT (5::int)) [] empty_column = Inl OutOfRange"
  by (simp add: remove_def get_def update_def empty_column_def)

text \<open>
  C9, amended: for \<open>tid\<close> outside \<open>[0, N)\<close>, \<^verbatim>\<open>get(tid)\<close>, \<^verbatim>\<open>remove(tid)\<close> and
  \<^verbatim>\<open>update(tid, a)\<close> with a holder of a \<^verbatim>\<open>T\<close> fail with \<^verbatim>\<open>std::out_of_range\<close>, thrown to
  the caller; \<^verbatim>\<open>update\<close> with an empty holder or a holder of another type returns false
  without looking at \<open>tid\<close>, and leaves the column as it is.
\<close>

theorem out_of_range_throws:
  assumes "\<not> tid < size_column c"
  shows "get tid h c = Inl OutOfRange \<and> remove tid h c = Inl OutOfRange \<and>
         update tid (AnyT v) h c = Inl OutOfRange \<and>
         update tid AnyEmpty h c = Inr (False, h, c) \<and>
         update tid AnyOther h c = Inr (False, h, c)"
  using assms by (simp add: get_def remove_def update_def size_column_def)

theorem out_of_range_throws_witness:
  "\<not> 3 < size_column \<lparr>col_values = [0], col_position = [0, 0]\<rparr> \<and>
   get 3 [Some (5::int, 2)] \<lparr>col_values = [0], col_position = [0, 0]\<rparr> = Inl OutOfRange \<and>
   remove 3 [Some (5::int, 2)] \<lparr>col_values = [0], col_position = [0, 0]\<rparr> = Inl OutOfRange \<and>
   update 3 (AnyT 7) [Some (5::int, 2)] \<lparr>col_values = [0], col_position = [0, 0]\<rparr> = Inl OutOfRange"
proof -
  have h: "\<not> 3 < size_column \<lparr>col_values = [0], col_position = [0, 0]\<rparr>"
    by (simp add: size_column_def)
  show ?thesis
    using h out_of_range_throws[OF h, of "[Some (5::int, 2)]" 7] by simp
qed

text \<open>
  C1. A successful \<^verbatim>\<open>update\<close> should leave the row count as it is. After the in-place
  rewrite the function returns \<^verbatim>\<open>insert(new_value)\<close>, which appends a row: updating row 0
  of the one-row column holding 1 to the value 2 yields a column of two rows.
\<close>

theorem update_appends_row:
  "update 0 (AnyT (2::int)) [Some (1, 1)] \<lparr>col_values = [0], col_position = [0]\<rparr> =
     Inr (True, [None, Some (2, 2)], \<lparr>col_values = [1], col_position = [1, 1]\<rparr>) \<and>
   size_column \<lparr>col_values = [0], col_position = [0]\<rparr> = 1 \<and>
   size_column \<lparr>col_values = [1], col_position = [1, 1]\<rparr> = 2"
  by code_simp

text \<open>
  C2. \<^verbatim>\<open>copy\<close> should give a column whose position slots refer to its own dictionary. The
  implicit copy constructor copies the iterators as they are: the copy of the one-row
  column holding 5 has the new node 1 as its dictionary and the handle 0, a node of the
  source, in its position vector. Removing row 0 of the source erases node 0, after which
  \<^verbatim>\<open>get(0)\<close> on the copy dereferences an erased node.
\<close>

theorem copy_shares_handles:
  "insert_value (5::int) [] empty_column =
     (True, [Some (5, 1)], \<lparr>col_values = [0], col_position = [0]\<rparr>) \<and>
   copy [Some (5::int, 1)] \<lparr>col_values = [0], col_position = [0]\<rparr> =
     ([Some (5, 1), Some (5, 1)], \<lparr>col_values = [1], col_position = [0]\<rparr>) \<and>
   get 0 [Some (5::int, 1), Some (5, 1)] \<lparr>col_values = [1], col_position = [0]\<rparr> = Inr (AnyT 5) \<and>
   remove 0 [Some (5::int, 1), Some (5, 1)] \<lparr>col_values = [0], col_position = [0]\<rparr> =
     Inr (True, [None, Some (5, 1)], \<lparr>col_values = [], col_position = []\<rparr>) \<and>
   get 0 [None, Some (5::int, 1)] \<lparr>col_values = [1], col_position = [0]\<rparr> = Inl Undefined"
  by code_simp




text \<open>
  C10. \<^verbatim>\<open>load\<close> does not clear the column it is called on. When every ordinal of the
  position file indexes an item of the values file, the call returns true; the position
  vector is the old one followed by one slot per ordinal, so the size grows by the number
  of ordinals and equals it only for a column without rows; every node that existed
  before keeps its key and its count, and for an item whose value is already in the
  dictionary the remembered handle is the entry that was there, whatever count the file
  gives.
\<close>

theorem load_appends_to_column:
  assumes "\<forall>p\<in>set (read_position fs (path @ ''_position'')).
             unat p < length (read_values fs (path @ ''_values''))"
  shows "\<exists>h' vals' refs.
           load path fs h c =
             Inr (True, h',
                  \<lparr>col_values = vals',
                   col_position = col_position c @
                     map (\<lambda>p. refs ! unat p) (read_position fs (path @ ''_position''))\<rparr>) \<and>
           length refs = length (read_values fs (path @ ''_values'')) \<and>
           (\<forall>b<length h. deref h' b = deref h b) \<and>
           (\<forall>j<length (read_values fs (path @ ''_values'')). \<forall>e.
              map_find h (col_values c) (snd (read_values fs (path @ ''_values'') ! j)) = Some e \<longrightarrow>
              refs ! j = e \<and> deref h' e = deref h e \<and>
              map_find h' vals' (snd (read_values fs (path @ ''_values'') ! j)) = Some e) \<and>
           size_column \<lparr>col_values = vals',
                   col_position = col_position c @
                     map (\<lambda>p. refs ! unat p) (read_position fs (path @ ''_position''))\<rparr> =
             size_column c + length (read_position fs (path @ ''_position''))"
proof -
  let ?recs = "read_values fs (path @ ''_values'')"
  let ?ords = "read_position fs (path @ ''_position'')"
  obtain h' vals' refs where l: "load_values ?recs h (col_values c) [] = (h', vals', refs)"
    by (cases "load_values ?recs h (col_values c) []")
  from load_values_old_nodes[OF l] have len: "length refs = length ?recs"
    and old: "\<forall>b<length h. deref h' b = deref h b" by simp_all
  from assms len have "\<forall>p\<in>set ?ords. unat p < length refs" by simp
  from load_position_append[OF this]
  have res: "load path fs h c =
      Inr (True, h', \<lparr>col_values = vals',
             col_position = col_position c @ map (\<lambda>p. refs ! unat p) ?ords\<rparr>)"
    using l by (simp add: load_def)
  have present: "\<forall>j<length ?recs. \<forall>e.
      map_find h (col_values c) (snd (?recs ! j)) = Some e \<longrightarrow>
      refs ! j = e \<and> deref h' e = deref h e \<and> map_find h' vals' (snd (?recs ! j)) = Some e"
  proof (intro allI impI)
    fix j e assume j: "j < length ?recs"
      and f: "map_find h (col_values c) (snd (?recs ! j)) = Some e"
    from map_find_Some[OF f] have "key_of h e \<noteq> None" by simp
    then have "e < length h" by (auto simp: key_of_def dest: deref_Some_less)
    then show "refs ! j = e \<and> deref h' e = deref h e \<and> map_find h' vals' (snd (?recs ! j)) = Some e"
      using load_values_present[OF l j f] load_values_find_stable[OF l f] old by simp
  qed
  show ?thesis using res len old present
    by (intro exI[of _ h'] exI[of _ vals'] exI[of _ refs]) (simp add: size_column_def)
qed

theorem load_appends_to_column_witness:
  "list_all
     (\<lambda>p. unat p < length (read_values
        \<lparr>values_file = [''p_values'' \<mapsto> [(7, 5::int), (1, 3)]],
         position_file = [''p_position'' \<mapsto> [0, 1, 0]]\<rparr> (''p'' @ ''_values'')))
     (read_position
        \<lparr>values_file = [''p_values'' \<mapsto> [(7, 5::int), (1, 3)]],
         position_file = [''p_position'' \<mapsto> [0, 1, 0]]\<rparr> (''p'' @ ''_position'')) \<and>
   load ''p''
     \<lparr>values_file = [''p_values'' \<mapsto> [(7, 5::int), (1, 3)]],
      position_file = [''p_position'' \<mapsto> [0, 1, 0]]\<rparr>
     [Some (5, 1)] \<lparr>col_values = [0], col_position = [0]\<rparr> =
     Inr (True, [Some (5, 1), Some (3, 1)],
          \<lparr>col_values = [1, 0], col_position = [0, 0, 1, 0]\<rparr>) \<and>
   (\<exists>h' vals' refs.
      load ''p''
        \<lparr>values_file = [''p_values'' \<mapsto> [(7, 5::int), (1, 3)]],
         position_file = [''p_position'' \<mapsto> [0, 1, 0]]\<rparr>
        [Some (5, 1)] \<lparr>col_values = [0], col_position = [0]\<rparr> =
        Inr (True, h',
             \<lparr>col_values = vals',
              col_position = [0] @ map (\<lambda>p. refs ! unat p) [0, 1, 0]\<rparr>) \<and>
      (\<forall>b<length [Some (5::int, 1 :: size_t)]. deref h' b = deref [Some (5, 1)] b))"
proof -
  let ?fs = "\<lparr>values_file = [''p_values'' \<mapsto> [(7, 5::int), (1, 3)]],
              position_file = [''p_position'' \<mapsto> [0, 1, 0]]\<rparr>"
  let ?h = "[Some (5::int, 1 :: size_t)]"
  let ?c = "\<lparr>col_values = [0], col_position = [0]\<rparr>"
  have rp: "read_position ?fs (''p'' @ ''_position'') = [0, 1, 0]"
    by (simp add: read_position_def)
  have rv: "read_values ?fs (''p'' @ ''_values'') = [(7, 5), (1, 3)]"
    by (simp add: read_values_def)
  have h: "\<forall>p\<in>set (read_position ?fs (''p'' @ ''_position'')).
      unat p < length (read_values ?fs (''p'' @ ''_values''))"
    unfolding rp rv by simp
  have e: "load ''p'' ?fs ?h ?c =
     Inr (True, [Some (5, 1), Some (3, 1)],
          \<lparr>col_values = [1, 0], col_position = [0, 0, 1, 0]\<rparr>)"
    unfolding load_def rp rv
    by (simp add: map_emplace_cases map_find_def key_of_def deref_def)
  from load_appends_to_column[OF h, of ?h ?c]
  have "\<exists>h' vals' refs.
      load ''p'' ?fs ?h ?c =
        Inr (True, h',
             \<lparr>col_values = vals',
              col_position = [0] @ map (\<lambda>p. refs ! unat p) [0, 1, 0]\<rparr>) \<and>
      (\<forall>b<length ?h. deref h' b = deref ?h b)"
    unfolding rp rv by auto
  then show ?thesis using h e by (simp only: list_all_iff; blast)
qed

end
